theory Spec2Isabelle
  imports
    Complex_Main
    "HOL-Library.Char_ord"
    "HOL-Library.List_Lexorder"
    "HOL-Library.Multiset"
begin

section \<open>Strings\<close>

text \<open>
  A Python \<open>str\<close> is modelled as a \<^typ>\<open>string\<close> holding its UTF-8 encoding, one
  \<^typ>\<open>char\<close> per byte. Concatenation, \<open>startswith\<close>, \<open>endswith\<close>, \<open>split\<close>,
  \<open>rstrip\<close> and \<open>rfind\<close> with the ASCII arguments the program uses act on the bytes as
  they act on the code points, and the byte-wise lexicographic order of
  \<open>HOL-Library.List_Lexorder\<close> over \<open>HOL-Library.Char_ord\<close> is the
  code-point order Python's \<open>sorted\<close> uses. \<open>str.lower\<close> is modelled on the ASCII
  letters; bytes outside ASCII are left unchanged.
\<close>

definition startswith :: "string \<Rightarrow> string \<Rightarrow> bool" where
  "startswith s pre = (take (length pre) s = pre)"

definition endswith :: "string \<Rightarrow> string \<Rightarrow> bool" where
  "endswith s suf = (length suf \<le> length s \<and> drop (length s - length suf) s = suf)"

definition rstrip :: "string \<Rightarrow> char \<Rightarrow> string" where
  "rstrip s c = rev (dropWhile (\<lambda>x. x = c) (rev s))"

text \<open>\<open>s.split(sep)\<close> for a one-character separator: never the empty list.\<close>

fun str_split :: "string \<Rightarrow> char \<Rightarrow> string list" where
  "str_split [] sep = [[]]"
| "str_split (c # cs) sep =
     (if c = sep then [] # str_split cs sep
      else (case str_split cs sep of
              [] \<Rightarrow> [[c]]
            | w # ws \<Rightarrow> (c # w) # ws))"

definition lower_char :: "char \<Rightarrow> char" where
  "lower_char c =
     (if CHR ''A'' \<le> c \<and> c \<le> CHR ''Z'' then char_of (of_char c + (32 :: nat)) else c)"

definition lower :: "string \<Rightarrow> string" where
  "lower s = map lower_char s"

text \<open>\<open>s.rfind(c)\<close>: the highest index of \<open>c\<close> in \<open>s\<close>, or \<open>-1\<close>.\<close>

fun rfind :: "string \<Rightarrow> char \<Rightarrow> int" where
  "rfind [] c = - 1"
| "rfind (x # xs) c =
     (let r = rfind xs c in if 0 \<le> r then r + 1 else if x = c then 0 else - 1)"

text \<open>
  \<open>os.path.splitext\<close> of \<open>posixpath\<close>: the extension starts at the last dot of the last
  path component, unless only dots precede it there. The inner function is the
  \<open>while\<close> loop that skips the leading dots.
\<close>

function skip_leading_dots :: "string \<Rightarrow> nat \<Rightarrow> nat \<Rightarrow> string \<times> string" where
  "skip_leading_dots p filenameIndex dotIndex =
     (if filenameIndex < dotIndex then
        (if take 1 (drop filenameIndex p) \<noteq> ''.'' then (take dotIndex p, drop dotIndex p)
         else skip_leading_dots p (Suc filenameIndex) dotIndex)
      else (p, []))"
  by pat_completeness auto
termination
  by (relation "measure (\<lambda>(p, filenameIndex, dotIndex). dotIndex - filenameIndex)") auto

declare skip_leading_dots.simps [simp del]

definition splitext :: "string \<Rightarrow> string \<times> string" where
  "splitext p =
     (let sepIndex = rfind p CHR ''/'';
          dotIndex = rfind p CHR ''.''
      in if dotIndex > sepIndex
         then skip_leading_dots p (nat (sepIndex + 1)) (nat dotIndex)
         else (p, []))"

text \<open>\<open>str(n)\<close> of a non-negative integer, as an f-string prints it.\<close>

fun str_of_nat :: "nat \<Rightarrow> string" where
  "str_of_nat n =
     (if n < 10 then [char_of (48 + n)]
      else str_of_nat (n div 10) @ [char_of (48 + n mod 10)])"

declare str_of_nat.simps [simp del]

section \<open>Repository name\<close>

definition get_repo_name :: "string \<Rightarrow> string" where
  "get_repo_name url0 =
     (let url = rstrip url0 CHR ''/'';
          repo_name = last (str_split url CHR ''/'')
      in if endswith repo_name ''.git''
         then take (length repo_name - 4) repo_name
         else repo_name)"

section \<open>The file system\<close>

text \<open>
  The cloned working tree, as the program observes it. A file answers \<open>os.path.getsize\<close>
  with its size or with the message of the \<open>OSError\<close> raised, and \<open>open(...).read()\<close> with
  its decoded text or with the message of the exception raised (the file cannot be
  opened, or its bytes are not UTF-8). A directory is the list of its entries in the
  order the operating system lists them; \<open>Unlistable\<close> is a directory whose listing
  raises. Symbolic links are not modelled.
\<close>

record fileinfo =
  getsize :: "string + nat"
  read_text :: "string + string"

datatype node = File fileinfo | Dir "(string \<times> node) list" | Unlistable

datatype error = PermissionError | NotADirectoryError

fun isdir :: "node \<Rightarrow> bool" where
  "isdir (File f) = False"
| "isdir (Dir entries) = True"
| "isdir Unlistable = True"

section \<open>Tree renderer\<close>

text \<open>The connectors and continuation prefixes, in UTF-8.\<close>

definition tee :: string where
  "tee = [CHR 0xE2, CHR 0x94, CHR 0x9C, CHR 0xE2, CHR 0x94, CHR 0x80,
          CHR 0xE2, CHR 0x94, CHR 0x80, CHR 0x20]"

definition elbow :: string where
  "elbow = [CHR 0xE2, CHR 0x94, CHR 0x94, CHR 0xE2, CHR 0x94, CHR 0x80,
            CHR 0xE2, CHR 0x94, CHR 0x80, CHR 0x20]"

definition bar_ext :: string where
  "bar_ext = [CHR 0xE2, CHR 0x94, CHR 0x82, CHR 0x20, CHR 0x20, CHR 0x20]"

definition blank_ext :: string where
  "blank_ext = [CHR 0x20, CHR 0x20, CHR 0x20, CHR 0x20]"

text \<open>
  \<open>build_tree_lines\<close> lists and sorts the directory; \<open>tree_loop\<close> is its \<open>for\<close> loop over
  the sorted items from position \<open>index\<close> on, \<open>n\<close> being \<open>len(items)\<close>. An exception of a
  recursive call ends the whole rendering.
\<close>

function build_tree_lines :: "node \<Rightarrow> string \<Rightarrow> error + string list"
  and tree_loop :: "string \<Rightarrow> (string \<times> node) list \<Rightarrow> nat \<Rightarrow> nat \<Rightarrow> error + string list"
where
  "build_tree_lines (File f) prefix = Inl NotADirectoryError"
| "build_tree_lines Unlistable prefix = Inl PermissionError"
| "build_tree_lines (Dir entries) prefix =
     (let items = sort_key fst entries in tree_loop prefix items 0 (length items))"
| "tree_loop prefix [] index n = Inr []"
| "tree_loop prefix ((item, child) # rest) index n =
     (let connector = (if index = n - 1 then elbow else tee) in
      if isdir child then
        (let line = prefix @ connector @ item @ ''/'';
             extension_prefix =
               (if index = n - 1 then prefix @ blank_ext else prefix @ bar_ext)
         in case build_tree_lines child extension_prefix of
              Inl e \<Rightarrow> Inl e
            | Inr sub \<Rightarrow>
                (case tree_loop prefix rest (Suc index) n of
                   Inl e \<Rightarrow> Inl e
                 | Inr later \<Rightarrow> Inr (line # sub @ later)))
      else
        (case tree_loop prefix rest (Suc index) n of
           Inl e \<Rightarrow> Inl e
         | Inr later \<Rightarrow> Inr ((prefix @ connector @ item) # later)))"
  by pat_completeness auto

fun nodes :: "node \<Rightarrow> nat" where
  "nodes (File f) = 1"
| "nodes Unlistable = 1"
| "nodes (Dir entries) = Suc (sum_list (map (\<lambda>e. nodes (snd e)) entries))"

termination build_tree_lines
proof (relation "measure (\<lambda>x. case x of
          Inl (nd, prefix) \<Rightarrow> 2 * nodes nd
        | Inr (prefix, items, index, n) \<Rightarrow>
            Suc (2 * sum_list (map (\<lambda>e. nodes (snd e)) items)))", goal_cases)
  case 1
  show ?case by simp
next
  case (2 entries prefix x)
  have "mset (map (\<lambda>e. nodes (snd e)) (sort_key fst entries))
      = mset (map (\<lambda>e. nodes (snd e)) entries)"
    by simp
  then have "sum_mset (mset (map (\<lambda>e. nodes (snd e)) (sort_key fst entries)))
      = sum_mset (mset (map (\<lambda>e. nodes (snd e)) entries))"
    by (rule arg_cong)
  then have "sum_list (map (\<lambda>e. nodes (snd e)) (sort_key fst entries))
      = sum_list (map (\<lambda>e. nodes (snd e)) entries)"
    by (simp only: sum_mset_sum_list)
  then show ?case using 2 by simp
next
  case 3
  then show ?case by simp
next
  case (4 prefix item child rest index n)
  have "0 < nodes child" by (cases child) simp_all
  then show ?case by simp
next
  case (5 prefix item child rest index n)
  have "0 < nodes child" by (cases child) simp_all
  then show ?case by simp
qed


section \<open>Content concatenator\<close>

text \<open>
  A Python \<open>float\<close>: a finite binary64 value, given by the rational it denotes, an
  infinity or a NaN (\<open>argparse\<close> with \<open>type=float\<close> accepts \<open>inf\<close> and \<open>nan\<close>).
  The product of a binary64 value with 1024 is exact, since 1024 is a power of two,
  unless the exponent leaves the binary64 range, where the result is an infinity.
\<close>

datatype pyfloat = Finite rat | PosInf | NegInf | NaN

fun times_1024 :: "pyfloat \<Rightarrow> pyfloat" where
  "times_1024 (Finite q) =
     (let r = q * 1024 in
      if 2 ^ 1024 \<le> r then PosInf
      else if r \<le> - (2 ^ 1024) then NegInf
      else Finite r)"
| "times_1024 PosInf = PosInf"
| "times_1024 NegInf = NegInf"
| "times_1024 NaN = NaN"

text \<open>\<open>file_size > max_size_bytes\<close>: Python compares an \<open>int\<close> with a \<open>float\<close> exactly.\<close>

fun int_gt_float :: "nat \<Rightarrow> pyfloat \<Rightarrow> bool" where
  "int_gt_float n (Finite r) = (r < of_nat n)"
| "int_gt_float n PosInf = False"
| "int_gt_float n NegInf = True"
| "int_gt_float n NaN = False"

text \<open>The command-line arguments the walk reads, after normalisation.\<close>

record config =
  excluded_extensions :: "string list"
  max_file_size :: "pyfloat option"

text \<open>
  The two streams the walk writes to: the text of the contents file, and the lines
  printed on the console, one entry per \<open>print\<close> call.
\<close>

record sinks =
  global_out :: string
  stdout :: "string list"

primrec normalize_extensions :: "string list \<Rightarrow> string list" where
  "normalize_extensions [] = []"
| "normalize_extensions (ext # exts) =
     (if \<not> startswith ext ''.'' then (''.'' @ lower ext) # normalize_extensions exts
      else lower ext # normalize_extensions exts)"

text \<open>
  \<open>os.path.relpath(os.path.join(current_root, file), tmpdirname)\<close>, with \<open>current_root\<close>
  given by the names of the directories passed since the root of the walk.
\<close>

fun relpath :: "string list \<Rightarrow> string" where
  "relpath [] = []"
| "relpath [name] = name"
| "relpath (name # names) = name @ ''/'' @ relpath names"

definition separator :: string where
  "separator = ''================================================'' @ [CHR 0x0A]"

definition yellow :: string where
  "yellow = CHR 0x1B # ''[6;33;40m''"

definition reset :: string where
  "reset = CHR 0x1B # ''[0m''"

definition msg_excluded :: "string \<Rightarrow> string \<Rightarrow> string" where
  "msg_excluded relative_path file_ext =
     yellow @ ''[!] Skipping file '' @ relative_path @ '' due to excluded extension (''
       @ file_ext @ '').'' @ reset"

definition msg_no_size :: "string \<Rightarrow> string \<Rightarrow> string" where
  "msg_no_size relative_path e =
     ''[!] Could not get size of '' @ relative_path @ '': '' @ e"

definition msg_too_large :: "string \<Rightarrow> nat \<Rightarrow> string" where
  "msg_too_large relative_path file_size =
     yellow @ ''[!] Skipping file '' @ relative_path
       @ '' as it exceeds the maximum allowed size ('' @ str_of_nat file_size
       @ '' bytes).'' @ reset"

text \<open>The three header writes, the \<open>try\<close> block and the final write of two newlines.\<close>

definition write_block :: "string \<Rightarrow> fileinfo \<Rightarrow> sinks \<Rightarrow> sinks" where
  "write_block relative_path f s =
     (let s1 = s\<lparr>global_out := global_out s @ separator\<rparr>;
          s2 = s1\<lparr>global_out := global_out s1 @ ''File: '' @ relative_path @ [CHR 0x0A]\<rparr>;
          s3 = s2\<lparr>global_out := global_out s2 @ separator\<rparr>;
          s4 = (case read_text f of
                  Inr content \<Rightarrow> s3\<lparr>global_out := global_out s3 @ content\<rparr>
                | Inl e \<Rightarrow>
                    s3\<lparr>global_out :=
                         global_out s3 @ ''[!] Error reading file: '' @ e @ [CHR 0x0A]\<rparr>)
      in s4\<lparr>global_out := global_out s4 @ [CHR 0x0A, CHR 0x0A]\<rparr>)"

text \<open>The body of the loop over the files of one directory.\<close>

definition process_file :: "config \<Rightarrow> string list \<Rightarrow> string \<Rightarrow> fileinfo \<Rightarrow> sinks \<Rightarrow> sinks" where
  "process_file cfg current_root file f s =
     (let relative_path = relpath (current_root @ [file]);
          file_ext = lower (snd (splitext file))
      in if excluded_extensions cfg \<noteq> [] \<and> file_ext \<in> set (excluded_extensions cfg)
         then s\<lparr>stdout := stdout s @ [msg_excluded relative_path file_ext]\<rparr>
         else (case max_file_size cfg of
                 None \<Rightarrow> write_block relative_path f s
               | Some mb \<Rightarrow>
                   (case getsize f of
                      Inl e \<Rightarrow> s\<lparr>stdout := stdout s @ [msg_no_size relative_path e]\<rparr>
                    | Inr file_size \<Rightarrow>
                        (let max_size_bytes = times_1024 (times_1024 mb)
                         in if int_gt_float file_size max_size_bytes
                            then s\<lparr>stdout :=
                                     stdout s @ [msg_too_large relative_path file_size]\<rparr>
                            else write_block relative_path f s))))"

text \<open>\<open>dirs.remove(name)\<close>: the first entry of that name goes.\<close>

fun remove_entry :: "string \<Rightarrow> (string \<times> node) list \<Rightarrow> (string \<times> node) list" where
  "remove_entry name [] = []"
| "remove_entry name ((d, nd) # rest) =
     (if d = name then rest else (d, nd) # remove_entry name rest)"

fun files_of :: "(string \<times> node) list \<Rightarrow> (string \<times> fileinfo) list" where
  "files_of [] = []"
| "files_of ((name, File f) # rest) = (name, f) # files_of rest"
| "files_of ((name, nd) # rest) = files_of rest"

text \<open>
  The loop over \<open>os.walk\<close>, top-down: the entries of the current directory are split
  into \<open>dirs\<close> and \<open>files\<close>, the body drops \<open>.git\<close> from \<open>dirs\<close> and handles the files, and
  the walk then descends into the directories left in \<open>dirs\<close>, in order. \<open>os.walk\<close>
  ignores a directory it cannot list.
\<close>

function walk :: "config \<Rightarrow> string list \<Rightarrow> node \<Rightarrow> sinks \<Rightarrow> sinks" where
  "walk cfg current_root (Dir entries) s =
     (let dirs = filter (\<lambda>e. isdir (snd e)) entries;
          files = files_of entries;
          dirs' = (if ''.git'' \<in> set (map fst dirs) then remove_entry ''.git'' dirs else dirs);
          s' = foldl (\<lambda>acc (file, f). process_file cfg current_root file f acc) s files
      in foldl (\<lambda>acc (d, nd). walk cfg (current_root @ [d]) nd acc) s' dirs')"
| "walk cfg current_root (File f) s = s"
| "walk cfg current_root Unlistable s = s"
  by pat_completeness auto
termination
proof (relation "measure (\<lambda>(cfg, current_root, nd, s). nodes nd)", goal_cases)
  case 1
  show ?case by simp
next
  case (2 cfg current_root entries s dirs files dirs' s' acc x d nd)
  have sub: "set (remove_entry k xs) \<subseteq> set xs" for k and xs :: "(string \<times> node) list"
    by (induction xs rule: remove_entry.induct) auto
  have "(d, nd) \<in> set dirs'"
    using 2 by simp
  then have "(d, nd) \<in> set dirs"
    using 2 sub [of "''.git''" dirs] by (cases "''.git'' \<in> set (map fst dirs)") auto
  then have "(d, nd) \<in> set entries"
    using 2 by simp
  then have "nodes nd \<le> sum_list (map (\<lambda>e. nodes (snd e)) entries)"
    by (induction entries) auto
  then show ?case by simp
qed

text \<open>The contents file and the console after the walk of \<open>main\<close>.\<close>

definition concatenate :: "string list \<Rightarrow> pyfloat option \<Rightarrow> node \<Rightarrow> sinks" where
  "concatenate exclude_ext max_mb root_dir =
     walk \<lparr>excluded_extensions = normalize_extensions exclude_ext, max_file_size = max_mb\<rparr>
       [] root_dir \<lparr>global_out = [], stdout = []\<rparr>"

section \<open>Notions used to state the properties\<close>

text \<open>
  A file passes the two checks of the loop body when its lower-cased extension is not
  excluded and, if a size limit is set, its size is known and does not exceed the limit.
\<close>

definition passes_checks :: "config \<Rightarrow> string \<Rightarrow> fileinfo \<Rightarrow> bool" where
  "passes_checks cfg file f \<longleftrightarrow>
     lower (snd (splitext file)) \<notin> set (excluded_extensions cfg)
     \<and> (case max_file_size cfg of
          None \<Rightarrow> True
        | Some mb \<Rightarrow>
            (case getsize f of
               Inl e \<Rightarrow> False
             | Inr file_size \<Rightarrow> \<not> int_gt_float file_size (times_1024 (times_1024 mb))))"

text \<open>The text of the block of one file: separator, header, separator, content, blank line.\<close>

definition file_block :: "string \<Rightarrow> fileinfo \<Rightarrow> string" where
  "file_block relative_path f =
     replicate 48 CHR ''='' @ [CHR 0x0A]
     @ ''File: '' @ relative_path @ [CHR 0x0A]
     @ replicate 48 CHR ''='' @ [CHR 0x0A]
     @ (case read_text f of
          Inr content \<Rightarrow> content
        | Inl e \<Rightarrow> ''[!] Error reading file: '' @ e @ [CHR 0x0A])
     @ [CHR 0x0A, CHR 0x0A]"

text \<open>
  The files for which the body of the loop runs, in order, each with the directory it is
  found in: the files of a directory, then those of the directories the walk descends
  into.
\<close>

function walk_files :: "string list \<Rightarrow> node \<Rightarrow> (string list \<times> string \<times> fileinfo) list" where
  "walk_files current_root (Dir entries) =
     (let dirs = filter (\<lambda>e. isdir (snd e)) entries;
          dirs' = (if ''.git'' \<in> set (map fst dirs) then remove_entry ''.git'' dirs else dirs)
      in map (\<lambda>(file, f). (current_root, file, f)) (files_of entries)
         @ concat (map (\<lambda>(d, nd). walk_files (current_root @ [d]) nd) dirs'))"
| "walk_files current_root (File f) = []"
| "walk_files current_root Unlistable = []"
  by pat_completeness auto
termination
proof (relation "measure (\<lambda>(current_root, nd). nodes nd)", goal_cases)
  case 1
  show ?case by simp
next
  case (2 current_root entries dirs dirs' x d nd)
  have sub: "set (remove_entry k xs) \<subseteq> set xs" for k and xs :: "(string \<times> node) list"
    by (induction xs rule: remove_entry.induct) auto
  have "(d, nd) \<in> set dirs'"
    using 2 by simp
  then have "(d, nd) \<in> set dirs"
    using 2 sub [of "''.git''" dirs] by (cases "''.git'' \<in> set (map fst dirs)") auto
  then have "(d, nd) \<in> set entries"
    using 2 by simp
  then have "nodes nd \<le> sum_list (map (\<lambda>e. nodes (snd e)) entries)"
    by (induction entries) auto
  then show ?case by simp
qed

text \<open>The tree without its directories named \<open>.git\<close>, at every depth.\<close>

function erase_git :: "node \<Rightarrow> node" where
  "erase_git (Dir entries) =
     Dir (map (\<lambda>(name, nd). (name, erase_git nd))
            (filter (\<lambda>(name, nd). \<not> (name = ''.git'' \<and> isdir nd)) entries))"
| "erase_git (File f) = File f"
| "erase_git Unlistable = Unlistable"
  by pat_completeness auto
termination
proof (relation "measure nodes", goal_cases)
  case 1
  show ?case by simp
next
  case (2 entries x name nd)
  then have "(name, nd) \<in> set entries"
    by simp
  then have "nodes nd \<le> sum_list (map (\<lambda>e. nodes (snd e)) entries)"
    by (induction entries) auto
  then show ?case by simp
qed

text \<open>No directory holds two entries of the same name, as in every file system.\<close>

fun distinct_names :: "node \<Rightarrow> bool" where
  "distinct_names (Dir entries) =
     (distinct (map fst entries) \<and> list_all (\<lambda>e. distinct_names (snd e)) entries)"
| "distinct_names (File f) = True"
| "distinct_names Unlistable = True"



text \<open>
  Reading a rendered tree back: the lines of the sibling group drawn with a given prefix
  are those that continue the prefix with a connector; what follows the connector is
  the name shown.
\<close>

fun strip_prefix :: "string \<Rightarrow> string \<Rightarrow> string option" where
  "strip_prefix [] s = Some s"
| "strip_prefix (p # ps) [] = None"
| "strip_prefix (p # ps) (c # cs) = (if p = c then strip_prefix ps cs else None)"

definition sibling_name :: "string \<Rightarrow> string \<Rightarrow> string option" where
  "sibling_name prefix line =
     (case strip_prefix prefix line of
        None \<Rightarrow> None
      | Some r \<Rightarrow>
          (case strip_prefix tee r of
             Some name \<Rightarrow> Some name
           | None \<Rightarrow> strip_prefix elbow r))"

definition sibling_names :: "string \<Rightarrow> string list \<Rightarrow> string list" where
  "sibling_names prefix ls = List.map_filter (sibling_name prefix) ls"

definition shown_name :: "string \<times> node \<Rightarrow> string" where
  "shown_name e = (if isdir (snd e) then fst e @ ''/'' else fst e)"

section \<open>Properties of the string operations\<close>

lemma str_split_nonempty: "str_split s c \<noteq> []"
  by (induction s) (auto split: list.splits)

lemma str_split_no_sep: "c \<notin> set s \<Longrightarrow> str_split s c = [s]"
  by (induction s) auto

lemma str_split_append: "str_split (xs @ c # ys) c = str_split xs c @ str_split ys c"
proof (induction xs)
  case Nil
  show ?case by simp
next
  case (Cons x xs)
  obtain w ws where w: "str_split xs c = w # ws"
    using str_split_nonempty [of xs c] by (cases "str_split xs c") auto
  show ?case using Cons w by simp
qed

lemma last_str_split:
  assumes "c \<notin> set seg" and "pre = [] \<or> last pre = c"
  shows "last (str_split (pre @ seg) c) = seg"
proof (cases "pre = []")
  case True
  then show ?thesis using assms by (simp add: str_split_no_sep)
next
  case False
  then have "pre = butlast pre @ [c]"
    using assms(2) by (metis append_butlast_last_id)
  then obtain p where p: "pre = p @ [c]" ..
  have "str_split (pre @ seg) c = str_split p c @ str_split seg c"
    using str_split_append [of p c seg] p by simp
  then show ?thesis using assms(1) by (simp add: str_split_no_sep)
qed

lemma rstrip_trailing:
  assumes "seg \<noteq> []" and "last seg \<noteq> c"
  shows "rstrip (pre @ seg @ replicate k c) c = pre @ seg"
proof -
  have d: "dropWhile (\<lambda>x. x = c) (replicate k c @ ys) = dropWhile (\<lambda>x. x = c) ys" for ys
    by (induction k) auto
  have "rev seg \<noteq> []" and "hd (rev seg) \<noteq> c"
    using assms by (simp_all add: hd_rev)
  then have "dropWhile (\<lambda>x. x = c) (rev seg @ rev pre) = rev seg @ rev pre"
    by (cases "rev seg") auto
  then show ?thesis by (simp add: rstrip_def d)
qed

lemma rstrip_all: "rstrip (replicate k c) c = []"
  by (simp add: rstrip_def)

lemma endswith_iff: "endswith s suf \<longleftrightarrow> (\<exists>p. s = p @ suf)"
proof
  assume "endswith s suf"
  then have "s = take (length s - length suf) s @ suf"
    by (metis append_take_drop_id endswith_def)
  then show "\<exists>p. s = p @ suf" ..
next
  assume "\<exists>p. s = p @ suf"
  then show "endswith s suf" by (auto simp: endswith_def)
qed

section \<open>The repository name\<close>

text \<open>
  C9: \<open>get_repo_name\<close> returns the last path segment of the source location, after the
  trailing \<open>/\<close> characters have been stripped (\<open>rstrip\<close> strips all of them), without its
  \<open>.git\<close> suffix when it has one. Every location is either \<open>pre @ seg @ slashes\<close>, where
  \<open>seg\<close> is non-empty and has no \<open>/\<close> and \<open>pre\<close> is empty or ends in \<open>/\<close>, or it consists
  of \<open>/\<close> characters only, and then the name is empty.
\<close>

theorem get_repo_name_last_segment:
  assumes "CHR ''/'' \<notin> set seg" and "seg \<noteq> []" and "pre = [] \<or> last pre = CHR ''/''"
  shows "(\<forall>name. seg = name @ ''.git'' \<longrightarrow>
            get_repo_name (pre @ seg @ replicate k CHR ''/'') = name)
       \<and> ((\<nexists>name. seg = name @ ''.git'') \<longrightarrow>
            get_repo_name (pre @ seg @ replicate k CHR ''/'') = seg)
       \<and> get_repo_name (replicate k CHR ''/'') = []"
proof -
  have "last seg \<noteq> CHR ''/''"
    using assms(1,2) last_in_set by metis
  then have r: "rstrip (pre @ seg @ replicate k CHR ''/'') CHR ''/'' = pre @ seg"
    using assms(2) by (rule rstrip_trailing [rotated])
  have l: "last (str_split (pre @ seg) CHR ''/'') = seg"
    using assms(1,3) by (rule last_str_split)
  have g: "get_repo_name (pre @ seg @ replicate k CHR ''/'')
      = (if endswith seg ''.git'' then take (length seg - 4) seg else seg)"
    by (simp add: get_repo_name_def r l)
  have a: "get_repo_name (pre @ seg @ replicate k CHR ''/'') = name" if "seg = name @ ''.git''" for name
  proof -
    have "endswith seg ''.git''" using that endswith_iff by blast
    then show ?thesis using g that by simp
  qed
  have b: "get_repo_name (pre @ seg @ replicate k CHR ''/'') = seg" if "\<nexists>name. seg = name @ ''.git''"
  proof -
    have "\<not> endswith seg ''.git''" using that endswith_iff by blast
    then show ?thesis using g by simp
  qed
  have c: "get_repo_name (replicate k CHR ''/'') = []"
    by (simp add: get_repo_name_def rstrip_all endswith_def)
  show ?thesis using a b c by blast
qed

theorem get_repo_name_last_segment_witness:
  "get_repo_name ''https://host/user/repo.git'' = ''repo''
   \<and> get_repo_name ''https://host/user/repo.git/'' = ''repo''"
proof -
  have 1: "CHR ''/'' \<notin> set ''repo.git''" by simp
  have 2: "''repo.git'' \<noteq> []" by simp
  have 3: "''https://host/user/'' = [] \<or> last ''https://host/user/'' = CHR ''/''" by simp
  have 4: "''repo.git'' = ''repo'' @ ''.git''" by simp
  have "get_repo_name (''https://host/user/'' @ ''repo.git'' @ replicate 0 CHR ''/'') = ''repo''"
    using get_repo_name_last_segment [OF 1 2 3, of 0] 4 by blast
  moreover have "get_repo_name (''https://host/user/'' @ ''repo.git'' @ replicate 1 CHR ''/'') = ''repo''"
    using get_repo_name_last_segment [OF 1 2 3, of 1] 4 by blast
  ultimately show ?thesis by simp
qed

section \<open>The exclusion list\<close>

lemma of_char_lower_char:
  "(of_char (lower_char c) :: nat) =
     (if 65 \<le> (of_char c :: nat) \<and> (of_char c :: nat) \<le> 90 then of_char c + 32 else of_char c)"
proof (cases "65 \<le> (of_char c :: nat) \<and> (of_char c :: nat) \<le> 90")
  case True
  then have "(of_char c + 32 :: nat) mod 256 = of_char c + 32"
    by simp
  then show ?thesis using True
    by (simp add: lower_char_def less_eq_char_def)
next
  case False
  then show ?thesis
    by (auto simp: lower_char_def less_eq_char_def)
qed

lemma lower_char_dot: "lower_char c = CHR ''.'' \<longleftrightarrow> c = CHR ''.''"
proof -
  have "lower_char c = CHR ''.'' \<longleftrightarrow> (of_char (lower_char c) :: nat) = of_char CHR ''.''"
    by (metis of_char_eq_iff)
  also have "\<dots> \<longleftrightarrow> (of_char c :: nat) = of_char CHR ''.''"
    by (simp only: of_char_lower_char) auto
  also have "\<dots> \<longleftrightarrow> c = CHR ''.''"
    by (metis of_char_eq_iff)
  finally show ?thesis .
qed

lemma lower_char_idem: "lower_char (lower_char c) = lower_char c"
proof -
  have "(of_char (lower_char (lower_char c)) :: nat) = of_char (lower_char c)"
    by (simp only: of_char_lower_char [of "lower_char c"]) (simp add: of_char_lower_char)
  then show ?thesis by (metis of_char_eq_iff)
qed

lemma lower_idem: "lower (lower s) = lower s"
  by (simp add: lower_def lower_char_idem)

lemma startswith_dot: "startswith s ''.'' \<longleftrightarrow> (\<exists>r. s = CHR ''.'' # r)"
  by (cases s) (auto simp: startswith_def)

lemma startswith_dot_lower: "startswith (lower s) ''.'' \<longleftrightarrow> startswith s ''.''"
  by (cases s) (auto simp: startswith_def lower_def lower_char_dot)

lemma normalize_extensions_map:
  "normalize_extensions exts =
     map (\<lambda>ext. if startswith ext ''.'' then lower ext else ''.'' @ lower ext) exts"
  by (induction exts) auto

lemma normalized_dot_lower:
  assumes "e \<in> set (normalize_extensions exts)"
  shows "startswith e ''.'' \<and> lower e = e"
proof -
  have "e \<in> (\<lambda>ext. if startswith ext ''.'' then lower ext else ''.'' @ lower ext) ` set exts"
    using assms by (simp only: normalize_extensions_map set_map)
  then obtain ext where e: "e = (if startswith ext ''.'' then lower ext else ''.'' @ lower ext)"
    by blast
  show ?thesis
  proof (cases "startswith ext ''.''")
    case True
    then show ?thesis using e by (simp add: startswith_dot_lower lower_idem)
  next
    case False
    have "lower (''.'' @ lower ext) = ''.'' @ lower ext"
      using lower_idem [of ext] by (simp add: lower_def lower_char_dot)
    then show ?thesis using e False by (simp add: startswith_def)
  qed
qed


section \<open>Extensions of file names\<close>

lemma rfind_ge: "- 1 \<le> rfind s c"
  by (induction s) (auto simp: Let_def)

lemma rfind_absent: "c \<notin> set s \<Longrightarrow> rfind s c = - 1"
  by (induction s) (auto simp: Let_def)

lemma splitext_no_dot:
  assumes "CHR ''.'' \<notin> set name"
  shows "splitext name = (name, [])"
proof -
  have "rfind name CHR ''.'' = - 1" using assms by (rule rfind_absent)
  moreover have "- 1 \<le> rfind name CHR ''/''" by (rule rfind_ge)
  ultimately show ?thesis by (simp add: splitext_def)
qed

lemma splitext_leading_dot:
  assumes "CHR ''.'' \<notin> set rest"
  shows "splitext (CHR ''.'' # rest) = (CHR ''.'' # rest, [])"
proof -
  have d: "rfind (CHR ''.'' # rest) CHR ''.'' = 0"
    using rfind_absent [OF assms] by simp
  have "- 1 \<le> rfind (CHR ''.'' # rest) CHR ''/''" by (rule rfind_ge)
  then consider "rfind (CHR ''.'' # rest) CHR ''/'' = - 1" | "0 \<le> rfind (CHR ''.'' # rest) CHR ''/''"
    by linarith
  then show ?thesis
  proof cases
    case 1
    then show ?thesis
      unfolding splitext_def Let_def d by (simp add: skip_leading_dots.simps)
  next
    case 2
    then show ?thesis
      unfolding splitext_def Let_def d by simp
  qed
qed

lemma process_file_excluded:
  assumes "lower (snd (splitext file)) \<in> set (excluded_extensions cfg)"
  shows "process_file cfg current_root file f s =
           s\<lparr>stdout := stdout s @ [msg_excluded (relpath (current_root @ [file]))
                                      (lower (snd (splitext file)))]\<rparr>"
proof -
  have "excluded_extensions cfg \<noteq> []" using assms by auto
  then show ?thesis using assms by (simp add: process_file_def)
qed

lemma process_file_not_excluded:
  assumes "lower (snd (splitext file)) \<notin> set (excluded_extensions cfg)"
  shows "process_file cfg current_root file f s =
           (case max_file_size cfg of
              None \<Rightarrow> write_block (relpath (current_root @ [file])) f s
            | Some mb \<Rightarrow>
                (case getsize f of
                   Inl e \<Rightarrow> s\<lparr>stdout := stdout s @ [msg_no_size (relpath (current_root @ [file])) e]\<rparr>
                 | Inr file_size \<Rightarrow>
                     if int_gt_float file_size (times_1024 (times_1024 mb))
                     then s\<lparr>stdout := stdout s @ [msg_too_large (relpath (current_root @ [file])) file_size]\<rparr>
                     else write_block (relpath (current_root @ [file])) f s))"
  using assms by (simp add: process_file_def Let_def split: option.splits sum.splits)

lemma normalized_nonempty: "[] \<notin> set (normalize_extensions exts)"
  using normalized_dot_lower [of "[]" exts] by (auto simp: startswith_def)

text \<open>
  C10: a file whose name has an empty extension under \<open>splitext\<close> is never skipped by the
  extension check, whatever exclusion list the user supplies: the check treats it as if
  nothing were excluded. Every normalised extension is non-empty and starts with a dot.
  A name without a dot, and a name whose only dot is the leading one, have an empty
  extension.
\<close>

theorem empty_extension_never_excluded:
  "(snd (splitext file) = [] \<longrightarrow>
      lower (snd (splitext file)) \<notin> set (normalize_extensions exts)
      \<and> process_file \<lparr>excluded_extensions = normalize_extensions exts, max_file_size = m\<rparr>
            current_root file f s
          = process_file \<lparr>excluded_extensions = [], max_file_size = m\<rparr> current_root file f s)
   \<and> (\<forall>e \<in> set (normalize_extensions exts). e \<noteq> [] \<and> hd e = CHR ''.'')
   \<and> (CHR ''.'' \<notin> set file \<longrightarrow> snd (splitext file) = [])
   \<and> (CHR ''.'' \<notin> set rest \<longrightarrow> snd (splitext (CHR ''.'' # rest)) = [])"
proof -
  have a: "lower (snd (splitext file)) \<notin> set (normalize_extensions exts)"
    if "snd (splitext file) = []"
    using that normalized_nonempty [of exts] by (simp add: lower_def)
  have b: "process_file \<lparr>excluded_extensions = normalize_extensions exts, max_file_size = m\<rparr>
            current_root file f s
          = process_file \<lparr>excluded_extensions = [], max_file_size = m\<rparr> current_root file f s"
    if "snd (splitext file) = []"
    using a [OF that] by (simp add: process_file_not_excluded)
  have c: "e \<noteq> [] \<and> hd e = CHR ''.''" if "e \<in> set (normalize_extensions exts)" for e
    using normalized_dot_lower [OF that] by (auto simp: startswith_dot)
  show ?thesis
    using a b c by (simp add: splitext_no_dot splitext_leading_dot)
qed

theorem empty_extension_never_excluded_witness:
  "snd (splitext ''Makefile'') = [] \<and> snd (splitext ''.gitignore'') = []
   \<and> normalize_extensions [''TXT'', ''.Log''] = [''.txt'', ''.log'']
   \<and> process_file \<lparr>excluded_extensions = normalize_extensions [''TXT'', ''.Log''],
                     max_file_size = None\<rparr> [] ''Makefile''
        \<lparr>getsize = Inr 3, read_text = Inr ''all''\<rparr> \<lparr>global_out = [], stdout = []\<rparr>
      = process_file \<lparr>excluded_extensions = [], max_file_size = None\<rparr> [] ''Makefile''
        \<lparr>getsize = Inr 3, read_text = Inr ''all''\<rparr> \<lparr>global_out = [], stdout = []\<rparr>"
proof -
  have 1: "CHR ''.'' \<notin> set ''Makefile''" by simp
  have 2: "CHR ''.'' \<notin> set ''gitignore''" by simp
  have 3: "normalize_extensions [''TXT'', ''.Log''] = [''.txt'', ''.log'']"
    by code_simp
  note t = empty_extension_never_excluded [of "''Makefile''" "[''TXT'', ''.Log'']" None "[]"
      "\<lparr>getsize = Inr 3, read_text = Inr ''all''\<rparr>" "\<lparr>global_out = [], stdout = []\<rparr>" "''gitignore''"]
  have 4: "snd (splitext ''Makefile'') = []" using t 1 by blast
  have 5: "snd (splitext ''.gitignore'') = []" using t 2 by blast
  show ?thesis using t 3 4 5 by blast
qed



section \<open>The loop body\<close>

lemma separator_48: "separator = replicate 48 CHR ''='' @ [CHR 0x0A]"
  by code_simp

lemma write_block_eq:
  "write_block relative_path f s = s\<lparr>global_out := global_out s @ file_block relative_path f\<rparr>"
  by (simp add: write_block_def file_block_def Let_def separator_48 split: sum.splits)



section \<open>The walk\<close>

lemma foldl_concat_map:
  "foldl step s (concat (map h xs)) = foldl (\<lambda>acc x. foldl step acc (h x)) s xs"
  by (induction xs arbitrary: s) simp_all

lemma walk_eq_foldl:
  "walk cfg current_root nd s =
     foldl (\<lambda>acc (c, file, f). process_file cfg c file f acc) s (walk_files current_root nd)"
proof (induction cfg current_root nd s rule: walk.induct)
  case (1 cfg current_root entries s)
  define step where "step = (\<lambda>acc (c, file, f). process_file cfg c file f acc)"
  define dirs where "dirs = filter (\<lambda>e. isdir (snd e)) entries"
  define dirs' where
    "dirs' = (if ''.git'' \<in> set (map fst dirs) then remove_entry ''.git'' dirs else dirs)"
  define s' where
    "s' = foldl (\<lambda>acc (file, f). process_file cfg current_root file f acc) s (files_of entries)"
  have ih: "walk cfg (current_root @ [d]) nd a = foldl step a (walk_files (current_root @ [d]) nd)"
    if "(d, nd) \<in> set dirs'" for d nd a
    using "1.IH" [OF dirs_def refl dirs'_def refl that refl] by (simp only: step_def)
  have a: "s' = foldl step s (map (\<lambda>(file, f). (current_root, file, f)) (files_of entries))"
    unfolding s'_def step_def foldl_map
    by (rule arg_cong [where f = "\<lambda>g. foldl g s (files_of entries)"]) (auto simp: fun_eq_iff)
  have b: "foldl (\<lambda>acc (d, nd). walk cfg (current_root @ [d]) nd acc) s0 dirs'
         = foldl step s0 (concat (map (\<lambda>(d, nd). walk_files (current_root @ [d]) nd) dirs'))"
    for s0
    unfolding foldl_concat_map
    by (rule foldl_cong) (auto simp: ih)
  have "walk cfg current_root (Dir entries) s
      = foldl (\<lambda>acc (d, nd). walk cfg (current_root @ [d]) nd acc) s' dirs'"
    by (simp only: walk.simps Let_def dirs_def dirs'_def s'_def)
  also have "\<dots> = foldl step s (walk_files current_root (Dir entries))"
    unfolding b a by (simp only: walk_files.simps Let_def dirs_def dirs'_def foldl_append)
  finally show ?case by (simp only: step_def)
next
  case (2 cfg current_root f s)
  show ?case by simp
next
  case (3 cfg current_root s)
  show ?case by simp
qed

lemma process_file_passes:
  assumes "passes_checks cfg file f"
  shows "process_file cfg current_root file f s
           = s\<lparr>global_out := global_out s @ file_block (relpath (current_root @ [file])) f\<rparr>"
proof -
  have "lower (snd (splitext file)) \<notin> set (excluded_extensions cfg)"
    using assms by (simp add: passes_checks_def)
  then show ?thesis
    using assms
    by (simp add: process_file_not_excluded passes_checks_def write_block_eq
             split: option.splits sum.splits)
qed

lemma process_file_fails:
  assumes "\<not> passes_checks cfg file f"
  shows "global_out (process_file cfg current_root file f s) = global_out s"
proof (cases "lower (snd (splitext file)) \<in> set (excluded_extensions cfg)")
  case True
  then show ?thesis by (simp add: process_file_excluded)
next
  case False
  then show ?thesis
    using assms
    by (simp add: process_file_not_excluded passes_checks_def split: option.splits sum.splits)
qed

lemma foldl_process_out:
  "global_out (foldl (\<lambda>acc (c, file, f). process_file cfg c file f acc) s xs)
     = global_out s @ concat (map (\<lambda>(c, file, f).
         if passes_checks cfg file f then file_block (relpath (c @ [file])) f else []) xs)"
proof (induction xs arbitrary: s)
  case Nil
  show ?case by simp
next
  case (Cons x xs)
  obtain c fname f where x: "x = (c, fname, f)" by (cases x) auto
  show ?case
  proof (cases "passes_checks cfg fname f")
    case True
    then show ?thesis using Cons [of "process_file cfg c fname f s"] x
      by (simp add: process_file_passes)
  next
    case False
    then show ?thesis using Cons [of "process_file cfg c fname f s"] x
      by (simp add: process_file_fails)
  qed
qed



text \<open>
  C1: for a file that passes both checks the loop body appends to the contents file
  exactly one block, and changes nothing else: a line of 48 \<open>=\<close>, the line
  \<open>File: <relative path>\<close>, a line of 48 \<open>=\<close>, the text read from the file or, when reading
  fails, the line \<open>[!] Error reading file: <message>\<close>, and two newline characters. A file
  that fails a check leaves the contents file unchanged. The contents file after the
  walk is the sequence of these blocks, one per visited file that passes, in the order
  of the walk.
\<close>

theorem written_block_shape:
  "(passes_checks cfg file f \<longrightarrow>
      process_file cfg current_root file f s =
        s\<lparr>global_out := global_out s
            @ replicate 48 CHR ''='' @ [CHR 0x0A]
            @ ''File: '' @ relpath (current_root @ [file]) @ [CHR 0x0A]
            @ replicate 48 CHR ''='' @ [CHR 0x0A]
            @ (case read_text f of
                 Inr content \<Rightarrow> content
               | Inl e \<Rightarrow> ''[!] Error reading file: '' @ e @ [CHR 0x0A])
            @ [CHR 0x0A, CHR 0x0A]\<rparr>)
   \<and> (\<not> passes_checks cfg file f \<longrightarrow>
        global_out (process_file cfg current_root file f s) = global_out s)
   \<and> global_out (walk cfg current_root nd s)
       = global_out s @ concat (map (\<lambda>(c, file, f).
           if passes_checks cfg file f then file_block (relpath (c @ [file])) f else [])
           (walk_files current_root nd))"
proof -
  have a: "passes_checks cfg file f \<longrightarrow>
      process_file cfg current_root file f s =
        s\<lparr>global_out := global_out s
            @ replicate 48 CHR ''='' @ [CHR 0x0A]
            @ ''File: '' @ relpath (current_root @ [file]) @ [CHR 0x0A]
            @ replicate 48 CHR ''='' @ [CHR 0x0A]
            @ (case read_text f of
                 Inr content \<Rightarrow> content
               | Inl e \<Rightarrow> ''[!] Error reading file: '' @ e @ [CHR 0x0A])
            @ [CHR 0x0A, CHR 0x0A]\<rparr>"
    by (simp add: process_file_passes file_block_def)
  have b: "\<not> passes_checks cfg file f \<longrightarrow>
        global_out (process_file cfg current_root file f s) = global_out s"
    by (simp add: process_file_fails)
  have c: "global_out (walk cfg current_root nd s)
       = global_out s @ concat (map (\<lambda>(c, file, f).
           if passes_checks cfg file f then file_block (relpath (c @ [file])) f else [])
           (walk_files current_root nd))"
    by (simp only: walk_eq_foldl foldl_process_out)
  show ?thesis
    by (rule conjI a b c)+
qed

theorem written_block_shape_witness:
  "process_file \<lparr>excluded_extensions = [''.log''], max_file_size = None\<rparr> [''sub''] ''c.txt''
       \<lparr>getsize = Inr 1, read_text = Inl ''bad byte''\<rparr> \<lparr>global_out = ''x'', stdout = []\<rparr>
     = \<lparr>global_out = ''x''
          @ ''================================================'' @ [CHR 0x0A]
          @ ''File: sub/c.txt'' @ [CHR 0x0A]
          @ ''================================================'' @ [CHR 0x0A]
          @ ''[!] Error reading file: bad byte'' @ [CHR 0x0A]
          @ [CHR 0x0A, CHR 0x0A],
        stdout = []\<rparr>
   \<and> global_out (walk \<lparr>excluded_extensions = [''.log''], max_file_size = None\<rparr> []
        (Dir [(''a.txt'', File \<lparr>getsize = Inr 2, read_text = Inr ''hi''\<rparr>),
              (''.git'', Dir [(''config'', File \<lparr>getsize = Inr 3, read_text = Inr ''cfg''\<rparr>)]),
              (''b.log'', File \<lparr>getsize = Inr 3, read_text = Inr ''log''\<rparr>),
              (''sub'', Dir [(''c.txt'', File \<lparr>getsize = Inr 1, read_text = Inl ''bad byte''\<rparr>)])])
        \<lparr>global_out = [], stdout = []\<rparr>)
     = file_block ''a.txt'' \<lparr>getsize = Inr 2, read_text = Inr ''hi''\<rparr>
       @ file_block ''sub/c.txt'' \<lparr>getsize = Inr 1, read_text = Inl ''bad byte''\<rparr>"
proof -
  define cfg where "cfg = \<lparr>excluded_extensions = [''.log''], max_file_size = None\<rparr>"
  define fa where "fa = \<lparr>getsize = Inr 2, read_text = Inr ''hi''\<rparr>"
  define fb where "fb = \<lparr>getsize = Inr 3, read_text = Inr ''log''\<rparr>"
  define fc where "fc = \<lparr>getsize = Inr 1, read_text = Inl ''bad byte''\<rparr>"
  define fg where "fg = \<lparr>getsize = Inr 3, read_text = Inr ''cfg''\<rparr>"
  define tree where "tree = Dir [(''a.txt'', File fa), (''.git'', Dir [(''config'', File fg)]),
      (''b.log'', File fb), (''sub'', Dir [(''c.txt'', File fc)])]"
  have pa: "passes_checks cfg ''a.txt'' fa"
    unfolding cfg_def fa_def by code_simp
  have pb: "\<not> passes_checks cfg ''b.log'' fb"
    unfolding cfg_def fb_def by code_simp
  have pc: "passes_checks cfg ''c.txt'' fc"
    unfolding cfg_def fc_def by code_simp
  have wf: "walk_files [] tree = [([], ''a.txt'', fa), ([], ''b.log'', fb), ([''sub''], ''c.txt'', fc)]"
    unfolding tree_def by (simp add: Let_def)
  have sep: "replicate 48 CHR ''='' = ''================================================''"
    by code_simp
  note t = written_block_shape [of cfg "''c.txt''" fc "[''sub'']"
      "\<lparr>global_out = ''x'', stdout = []\<rparr>" tree]
  note u = written_block_shape [of cfg "''c.txt''" fc "[]"
      "\<lparr>global_out = [], stdout = []\<rparr>" tree]
  have 1: "process_file cfg [''sub''] ''c.txt'' fc \<lparr>global_out = ''x'', stdout = []\<rparr>
     = \<lparr>global_out = ''x''
          @ ''================================================'' @ [CHR 0x0A]
          @ ''File: sub/c.txt'' @ [CHR 0x0A]
          @ ''================================================'' @ [CHR 0x0A]
          @ ''[!] Error reading file: bad byte'' @ [CHR 0x0A]
          @ [CHR 0x0A, CHR 0x0A],
        stdout = []\<rparr>"
    using t [THEN conjunct1, THEN mp, OF pc] unfolding sep by (simp add: fc_def)
  have 2: "global_out (walk cfg [] tree \<lparr>global_out = [], stdout = []\<rparr>)
     = file_block ''a.txt'' fa @ file_block ''sub/c.txt'' fc"
    using u [THEN conjunct2, THEN conjunct2] unfolding wf by (simp add: pa pb pc)
  show ?thesis
    using 1 2 unfolding cfg_def fa_def fb_def fc_def fg_def tree_def by simp
qed

text \<open>
  C2: for a file that passes the checks and cannot be opened or decoded, the content
  section of its block is the line \<open>[!] Error reading file: <message>\<close> and nothing else,
  and the console is left as it was. The loop over the files of the directory then goes
  on with the files that follow, and the result of the whole walk is that of handling
  every visited file in turn: a failing read ends neither loop.
\<close>

theorem read_failure_placeholder:
  "(passes_checks cfg file f \<and> read_text f = Inl e \<longrightarrow>
      process_file cfg current_root file f s =
        s\<lparr>global_out := global_out s
            @ replicate 48 CHR ''='' @ [CHR 0x0A]
            @ ''File: '' @ relpath (current_root @ [file]) @ [CHR 0x0A]
            @ replicate 48 CHR ''='' @ [CHR 0x0A]
            @ ''[!] Error reading file: '' @ e @ [CHR 0x0A]
            @ [CHR 0x0A, CHR 0x0A]\<rparr>
      \<and> foldl (\<lambda>acc (file, f). process_file cfg current_root file f acc) s
            (before @ (file, f) # after)
        = foldl (\<lambda>acc (file, f). process_file cfg current_root file f acc)
            ((foldl (\<lambda>acc (file, f). process_file cfg current_root file f acc) s before)
               \<lparr>global_out :=
                  global_out (foldl (\<lambda>acc (file, f). process_file cfg current_root file f acc)
                                s before)
                  @ replicate 48 CHR ''='' @ [CHR 0x0A]
                  @ ''File: '' @ relpath (current_root @ [file]) @ [CHR 0x0A]
                  @ replicate 48 CHR ''='' @ [CHR 0x0A]
                  @ ''[!] Error reading file: '' @ e @ [CHR 0x0A]
                  @ [CHR 0x0A, CHR 0x0A]\<rparr>)
            after)
   \<and> walk cfg current_root nd s
       = foldl (\<lambda>acc (c, file, f). process_file cfg c file f acc) s (walk_files current_root nd)"
proof -
  have a: "process_file cfg current_root file f s0 =
        s0\<lparr>global_out := global_out s0
            @ replicate 48 CHR ''='' @ [CHR 0x0A]
            @ ''File: '' @ relpath (current_root @ [file]) @ [CHR 0x0A]
            @ replicate 48 CHR ''='' @ [CHR 0x0A]
            @ ''[!] Error reading file: '' @ e @ [CHR 0x0A]
            @ [CHR 0x0A, CHR 0x0A]\<rparr>"
    if "passes_checks cfg file f" "read_text f = Inl e" for s0
    using that by (simp add: process_file_passes file_block_def)
  have b: "foldl (\<lambda>acc (file, f). process_file cfg current_root file f acc) s
            (before @ (file, f) # after)
        = foldl (\<lambda>acc (file, f). process_file cfg current_root file f acc)
            (process_file cfg current_root file f
               (foldl (\<lambda>acc (file, f). process_file cfg current_root file f acc) s before))
            after"
    by simp
  show ?thesis
    using a b walk_eq_foldl [of cfg current_root nd s] by simp
qed

theorem read_failure_placeholder_witness:
  "foldl (\<lambda>acc (file, f).
       process_file \<lparr>excluded_extensions = [], max_file_size = None\<rparr> [] file f acc)
     \<lparr>global_out = [], stdout = []\<rparr>
     [(''bad.bin'', \<lparr>getsize = Inr 1, read_text = Inl ''invalid start byte''\<rparr>),
      (''ok.txt'', \<lparr>getsize = Inr 2, read_text = Inr ''hi''\<rparr>)]
   = \<lparr>global_out =
        ''================================================'' @ [CHR 0x0A]
        @ ''File: bad.bin'' @ [CHR 0x0A]
        @ ''================================================'' @ [CHR 0x0A]
        @ ''[!] Error reading file: invalid start byte'' @ [CHR 0x0A]
        @ [CHR 0x0A, CHR 0x0A]
        @ ''================================================'' @ [CHR 0x0A]
        @ ''File: ok.txt'' @ [CHR 0x0A]
        @ ''================================================'' @ [CHR 0x0A]
        @ ''hi''
        @ [CHR 0x0A, CHR 0x0A],
      stdout = []\<rparr>"
proof -
  define cfg where "cfg = \<lparr>excluded_extensions = [], max_file_size = None\<rparr>"
  define bad where "bad = \<lparr>getsize = Inr 1, read_text = Inl ''invalid start byte''\<rparr>"
  define ok where "ok = \<lparr>getsize = Inr 2, read_text = Inr ''hi''\<rparr>"
  define s0 where "s0 = \<lparr>global_out = [], stdout = []\<rparr>"
  have h: "passes_checks cfg ''bad.bin'' bad \<and> read_text bad = Inl ''invalid start byte''"
    by (simp add: passes_checks_def cfg_def bad_def)
  have p: "passes_checks cfg ''ok.txt'' ok"
    by (simp add: passes_checks_def cfg_def)
  have sep: "replicate 48 CHR ''='' = ''================================================''"
    by code_simp
  have r1: "process_file cfg [] ''ok.txt'' ok X
      = X\<lparr>global_out := global_out X @ file_block ''ok.txt'' ok\<rparr>" for X
    using process_file_passes [OF p, of "[]" X] by simp
  have fb: "file_block ''ok.txt'' ok =
        ''================================================'' @ [CHR 0x0A]
        @ ''File: ok.txt'' @ [CHR 0x0A]
        @ ''================================================'' @ [CHR 0x0A]
        @ ''hi''
        @ [CHR 0x0A, CHR 0x0A]"
    by (simp add: file_block_def ok_def sep)
  note t = read_failure_placeholder [of cfg "''bad.bin''" bad "''invalid start byte''" "[]" s0
      "[]" "[(''ok.txt'', ok)]" "File ok", THEN conjunct1, THEN mp, OF h, THEN conjunct2]
  have "foldl (\<lambda>acc (file, f). process_file cfg [] file f acc) s0
          [(''bad.bin'', bad), (''ok.txt'', ok)]
      = \<lparr>global_out =
        ''================================================'' @ [CHR 0x0A]
        @ ''File: bad.bin'' @ [CHR 0x0A]
        @ ''================================================'' @ [CHR 0x0A]
        @ ''[!] Error reading file: invalid start byte'' @ [CHR 0x0A]
        @ [CHR 0x0A, CHR 0x0A]
        @ ''================================================'' @ [CHR 0x0A]
        @ ''File: ok.txt'' @ [CHR 0x0A]
        @ ''================================================'' @ [CHR 0x0A]
        @ ''hi''
        @ [CHR 0x0A, CHR 0x0A],
      stdout = []\<rparr>"
    using t unfolding sep
    by (simp add: r1 fb s0_def)
  then show ?thesis
    unfolding cfg_def bad_def ok_def s0_def by simp
qed

section \<open>Directories named .git\<close>

lemma remove_entry_distinct:
  "distinct (map fst xs) \<Longrightarrow> remove_entry k xs = filter (\<lambda>e. fst e \<noteq> k) xs"
proof (induction xs rule: remove_entry.induct)
  case (1 name)
  show ?case by simp
next
  case (2 name d nd rest)
  show ?case
  proof (cases "d = name")
    case True
    then have "name \<notin> fst ` set rest" using 2(2) by simp
    then have "filter (\<lambda>e. fst e \<noteq> name) rest = rest"
      by (intro filter_True) force
    then show ?thesis using True by simp
  next
    case False
    then show ?thesis using 2 by simp
  qed
qed

lemma kept_dirs:
  assumes "distinct (map fst entries)"
  shows "(if ''.git'' \<in> set (map fst (filter (\<lambda>e. isdir (snd e)) entries))
          then remove_entry ''.git'' (filter (\<lambda>e. isdir (snd e)) entries)
          else filter (\<lambda>e. isdir (snd e)) entries)
       = filter (\<lambda>e. fst e \<noteq> ''.git'') (filter (\<lambda>e. isdir (snd e)) entries)"
proof (cases "''.git'' \<in> set (map fst (filter (\<lambda>e. isdir (snd e)) entries))")
  case True
  have "distinct (map fst (filter (\<lambda>e. isdir (snd e)) entries))"
    using assms by (rule distinct_map_filter)
  then show ?thesis using True by (simp add: remove_entry_distinct)
next
  case False
  then have "filter (\<lambda>e. fst e \<noteq> ''.git'') (filter (\<lambda>e. isdir (snd e)) entries)
      = filter (\<lambda>e. isdir (snd e)) entries"
    by (intro filter_True) force
  then show ?thesis using False by simp
qed

lemma walk_files_distinct:
  assumes "distinct (map fst entries)"
  shows "walk_files current_root (Dir entries) =
     map (\<lambda>(file, f). (current_root, file, f)) (files_of entries)
     @ concat (map (\<lambda>(d, nd). walk_files (current_root @ [d]) nd)
         (filter (\<lambda>e. fst e \<noteq> ''.git'') (filter (\<lambda>e. isdir (snd e)) entries)))"
  by (simp only: walk_files.simps Let_def kept_dirs [OF assms])

lemma isdir_erase_git: "isdir (erase_git nd) = isdir nd"
  by (cases nd) simp_all

lemma files_of_erased:
  "files_of (map (\<lambda>(name, nd). (name, erase_git nd))
      (filter (\<lambda>(name, nd). \<not> (name = ''.git'' \<and> isdir nd)) entries)) = files_of entries"
proof (induction entries)
  case Nil
  show ?case by simp
next
  case (Cons e rest)
  obtain name nd where e: "e = (name, nd)" by (cases e) auto
  show ?case using Cons e by (cases nd) simp_all
qed

lemma dirs_of_erased:
  "filter (\<lambda>e. isdir (snd e)) (map (\<lambda>(name, nd). (name, erase_git nd))
      (filter (\<lambda>(name, nd). \<not> (name = ''.git'' \<and> isdir nd)) entries))
   = map (\<lambda>(name, nd). (name, erase_git nd))
       (filter (\<lambda>e. fst e \<noteq> ''.git'') (filter (\<lambda>e. isdir (snd e)) entries))"
  by (induction entries) (auto simp: isdir_erase_git)

lemma walk_files_erased_dir:
  "walk_files current_root (erase_git (Dir entries)) =
     map (\<lambda>(file, f). (current_root, file, f)) (files_of entries)
     @ concat (map (\<lambda>(d, nd). walk_files (current_root @ [d]) (erase_git nd))
         (filter (\<lambda>e. fst e \<noteq> ''.git'') (filter (\<lambda>e. isdir (snd e)) entries)))"
proof -
  define kept where
    "kept = filter (\<lambda>e. fst e \<noteq> ''.git'') (filter (\<lambda>e. isdir (snd e)) entries)"
  define erased where "erased = map (\<lambda>(name, nd). (name, erase_git nd)) kept"
  have n: "''.git'' \<notin> set (map fst erased)"
    by (auto simp: erased_def kept_def)
  have "walk_files current_root (erase_git (Dir entries))
      = map (\<lambda>(file, f). (current_root, file, f)) (files_of entries)
        @ concat (map (\<lambda>(d, nd). walk_files (current_root @ [d]) nd) erased)"
    using n
    by (simp only: erase_git.simps walk_files.simps Let_def files_of_erased dirs_of_erased
          kept_def [symmetric] erased_def [symmetric] if_False)
  also have "map (\<lambda>(d, nd). walk_files (current_root @ [d]) nd) erased
      = map (\<lambda>(d, nd). walk_files (current_root @ [d]) (erase_git nd)) kept"
    by (simp add: erased_def comp_def case_prod_beta)
  finally show ?thesis by (simp only: kept_def)
qed

lemma walk_files_erase_git:
  "distinct_names nd \<Longrightarrow> walk_files current_root (erase_git nd) = walk_files current_root nd"
proof (induction current_root nd rule: walk_files.induct)
  case (1 current_root entries)
  have d: "distinct (map fst entries)" using "1.prems" by simp
  define kept where
    "kept = filter (\<lambda>e. fst e \<noteq> ''.git'') (filter (\<lambda>e. isdir (snd e)) entries)"
  have k: "(if ''.git'' \<in> set (map fst (filter (\<lambda>e. isdir (snd e)) entries))
          then remove_entry ''.git'' (filter (\<lambda>e. isdir (snd e)) entries)
          else filter (\<lambda>e. isdir (snd e)) entries) = kept"
    unfolding kept_def by (rule kept_dirs [OF d])
  have ih: "walk_files (current_root @ [d]) (erase_git nd) = walk_files (current_root @ [d]) nd"
    if "(d, nd) \<in> set kept" for d nd
  proof -
    have "(d, nd) \<in> set entries" using that by (simp add: kept_def)
    then have "distinct_names nd"
      using "1.prems" by (auto simp: list_all_iff)
    moreover have "(d, nd) \<in> set (if ''.git'' \<in> set (map fst (filter (\<lambda>e. isdir (snd e)) entries))
          then remove_entry ''.git'' (filter (\<lambda>e. isdir (snd e)) entries)
          else filter (\<lambda>e. isdir (snd e)) entries)"
      using that by (simp only: k)
    ultimately show ?thesis
      by (rule "1.IH" [OF refl refl _ refl, rotated])
  qed
  have "map (\<lambda>(d, nd). walk_files (current_root @ [d]) (erase_git nd)) kept
      = map (\<lambda>(d, nd). walk_files (current_root @ [d]) nd) kept"
    by (rule map_cong) (auto simp: ih)
  then show ?case
    by (simp only: walk_files_erased_dir walk_files_distinct [OF d] kept_def [symmetric])
next
  case (2 current_root f)
  show ?case by simp
next
  case (3 current_root)
  show ?case by simp
qed

lemma walk_files_under_root:
  "distinct_names nd \<Longrightarrow> x \<in> set (walk_files current_root nd) \<Longrightarrow>
     \<exists>rest. fst x = current_root @ rest \<and> ''.git'' \<notin> set rest"
proof (induction current_root nd arbitrary: x rule: walk_files.induct)
  case (1 current_root entries)
  have d: "distinct (map fst entries)" using "1.prems"(1) by simp
  define kept where
    "kept = filter (\<lambda>e. fst e \<noteq> ''.git'') (filter (\<lambda>e. isdir (snd e)) entries)"
  have k: "(if ''.git'' \<in> set (map fst (filter (\<lambda>e. isdir (snd e)) entries))
          then remove_entry ''.git'' (filter (\<lambda>e. isdir (snd e)) entries)
          else filter (\<lambda>e. isdir (snd e)) entries) = kept"
    unfolding kept_def by (rule kept_dirs [OF d])
  have "x \<in> set (map (\<lambda>(file, f). (current_root, file, f)) (files_of entries))
      \<or> (\<exists>e \<in> set kept. x \<in> set (walk_files (current_root @ [fst e]) (snd e)))"
    using "1.prems"(2) unfolding walk_files_distinct [OF d] kept_def [symmetric]
    by (auto simp: case_prod_beta)
  then show ?case
  proof
    assume "x \<in> set (map (\<lambda>(file, f). (current_root, file, f)) (files_of entries))"
    then have "fst x = current_root @ []" by auto
    then show ?thesis by (intro exI [of _ "[]"]) simp
  next
    assume "\<exists>e \<in> set kept. x \<in> set (walk_files (current_root @ [fst e]) (snd e))"
    then obtain d nd where m: "(d, nd) \<in> set kept"
      and x: "x \<in> set (walk_files (current_root @ [d]) nd)"
      by auto
    have ne: "d \<noteq> ''.git''" using m by (auto simp: kept_def)
    have "(d, nd) \<in> set entries" using m by (simp add: kept_def)
    then have dn: "distinct_names nd"
      using "1.prems"(1) by (auto simp: list_all_iff)
    have m': "(d, nd) \<in> set (if ''.git'' \<in> set (map fst (filter (\<lambda>e. isdir (snd e)) entries))
          then remove_entry ''.git'' (filter (\<lambda>e. isdir (snd e)) entries)
          else filter (\<lambda>e. isdir (snd e)) entries)"
      using m by (simp only: k)
    obtain rest where r: "fst x = (current_root @ [d]) @ rest" "''.git'' \<notin> set rest"
      using "1.IH" [OF refl refl m' refl dn x] by blast
    show ?thesis
      using r ne by (intro exI [of _ "d # rest"]) simp
  qed
next
  case (2 current_root f)
  then show ?case by simp
next
  case (3 current_root)
  then show ?case by simp
qed

text \<open>
  C7: in a tree where no directory holds two entries of one name, the walk leaves the
  contents file and the console exactly as it would if no directory named \<open>.git\<close>
  existed at any depth, whatever these directories hold; and every file the loop body
  runs for lies in a directory whose path below the root of the walk has no component
  \<open>.git\<close>.
\<close>

theorem git_directories_never_visited:
  assumes "distinct_names root_dir"
  shows "walk cfg current_root root_dir s = walk cfg current_root (erase_git root_dir) s
       \<and> concatenate exclude_ext max_mb root_dir
           = concatenate exclude_ext max_mb (erase_git root_dir)
       \<and> (\<forall>x \<in> set (walk_files current_root root_dir).
             \<exists>rest. fst x = current_root @ rest \<and> ''.git'' \<notin> set rest)"
proof -
  have a: "walk c r root_dir s0 = walk c r (erase_git root_dir) s0" for c r s0
    by (simp only: walk_eq_foldl walk_files_erase_git [OF assms])
  have b: "concatenate exclude_ext max_mb root_dir
           = concatenate exclude_ext max_mb (erase_git root_dir)"
    by (simp only: concatenate_def a)
  have c: "\<forall>x \<in> set (walk_files current_root root_dir).
             \<exists>rest. fst x = current_root @ rest \<and> ''.git'' \<notin> set rest"
    using walk_files_under_root [OF assms] by blast
  show ?thesis
    by (rule conjI a b c)+
qed

theorem git_directories_never_visited_witness:
  "concatenate [] None
     (Dir [(''a.txt'', File \<lparr>getsize = Inr 2, read_text = Inr ''hi''\<rparr>),
           (''.git'', Dir [(''HEAD'', File \<lparr>getsize = Inr 4, read_text = Inr ''ref:''\<rparr>)]),
           (''sub'', Dir [(''.git'', Dir [(''x'', File \<lparr>getsize = Inr 1, read_text = Inr ''x''\<rparr>)]),
                          (''c.txt'', File \<lparr>getsize = Inr 1, read_text = Inr ''c''\<rparr>)])])
   = concatenate [] None
     (Dir [(''a.txt'', File \<lparr>getsize = Inr 2, read_text = Inr ''hi''\<rparr>),
           (''sub'', Dir [(''c.txt'', File \<lparr>getsize = Inr 1, read_text = Inr ''c''\<rparr>)])])"
proof -
  define tree where "tree =
     Dir [(''a.txt'', File \<lparr>getsize = Inr 2, read_text = Inr ''hi''\<rparr>),
           (''.git'', Dir [(''HEAD'', File \<lparr>getsize = Inr 4, read_text = Inr ''ref:''\<rparr>)]),
           (''sub'', Dir [(''.git'', Dir [(''x'', File \<lparr>getsize = Inr 1, read_text = Inr ''x''\<rparr>)]),
                          (''c.txt'', File \<lparr>getsize = Inr 1, read_text = Inr ''c''\<rparr>)])]"
  have d: "distinct_names tree"
    by (simp add: tree_def)
  have e: "erase_git tree =
     Dir [(''a.txt'', File \<lparr>getsize = Inr 2, read_text = Inr ''hi''\<rparr>),
           (''sub'', Dir [(''c.txt'', File \<lparr>getsize = Inr 1, read_text = Inr ''c''\<rparr>)])]"
    by (simp add: tree_def)
  show ?thesis
    using git_directories_never_visited [OF d, of _ _ _ "[]" None,
        THEN conjunct2, THEN conjunct1]
    unfolding e unfolding tree_def .
qed

section \<open>The rendered tree\<close>

lemma tree_loop_Cons:
  "tree_loop prefix ((item, child) # rest) index n =
     (case (if isdir child
            then build_tree_lines child (prefix @ (if index = n - 1 then blank_ext else bar_ext))
            else Inr []) of
        Inl e \<Rightarrow> Inl e
      | Inr sub \<Rightarrow>
          (case tree_loop prefix rest (Suc index) n of
             Inl e \<Rightarrow> Inl e
           | Inr later \<Rightarrow>
               Inr ((prefix @ (if index = n - 1 then elbow else tee) @ shown_name (item, child))
                    # sub @ later)))"
  by (simp add: Let_def shown_name_def split: sum.splits)

lemma tree_loop_ConsE:
  assumes "tree_loop prefix ((item, child) # rest) index n = Inr ls"
  obtains sub later where
    "if isdir child
     then build_tree_lines child (prefix @ (if index = n - 1 then blank_ext else bar_ext)) = Inr sub
     else sub = []"
    "tree_loop prefix rest (Suc index) n = Inr later"
    "ls = (prefix @ (if index = n - 1 then elbow else tee) @ shown_name (item, child)) # sub @ later"
  using assms unfolding tree_loop_Cons
  by (auto split: sum.splits if_splits)

lemma lines_start_with_prefix:
  "build_tree_lines nd prefix = Inr ls \<Longrightarrow> \<forall>l \<in> set ls. \<exists>r. l = prefix @ r"
  "tree_loop prefix items index n = Inr ls \<Longrightarrow> \<forall>l \<in> set ls. \<exists>r. l = prefix @ r"
proof (induction nd prefix and prefix items index n arbitrary: ls and ls
    rule: build_tree_lines_tree_loop.induct)
  case (1 f prefix)
  then show ?case by simp
next
  case (2 prefix)
  then show ?case by simp
next
  case (3 entries prefix)
  then show ?case by (simp add: Let_def)
next
  case (4 prefix index n)
  then show ?case by simp
next
  case (5 prefix item child rest index n)
  note ih = "5.IH"
  from "5.prems" obtain sub later where
    s: "if isdir child
        then build_tree_lines child (prefix @ (if index = n - 1 then blank_ext else bar_ext)) = Inr sub
        else sub = []"
    and l: "tree_loop prefix rest (Suc index) n = Inr later"
    and ls: "ls = (prefix @ (if index = n - 1 then elbow else tee) @ shown_name (item, child)) # sub @ later"
    by (rule tree_loop_ConsE)
  have a: "\<forall>l \<in> set sub. \<exists>r. l = prefix @ r"
  proof (cases "isdir child")
    case True
    then have b: "build_tree_lines child
        (if index = n - 1 then prefix @ blank_ext else prefix @ bar_ext) = Inr sub"
      using s by (simp split: if_splits)
    have "\<forall>l \<in> set sub. \<exists>r. l = (if index = n - 1 then prefix @ blank_ext else prefix @ bar_ext) @ r"
      using ih(1) [OF refl True refl refl b] .
    then show ?thesis by (auto split: if_splits)
  next
    case False
    then show ?thesis using s by simp
  qed
  have c: "\<forall>l \<in> set later. \<exists>r. l = prefix @ r"
  proof (cases "isdir child")
    case True
    then have b: "build_tree_lines child
        (if index = n - 1 then prefix @ blank_ext else prefix @ bar_ext) = Inr sub"
      using s by (simp split: if_splits)
    show ?thesis using ih(2) [OF refl True refl refl b l] .
  next
    case False
    show ?thesis using ih(3) [OF refl False l] .
  qed
  show ?case using a c unfolding ls by auto
qed







lemma strip_prefix_append: "strip_prefix p (p @ r) = Some r"
  by (induction p) simp_all

lemma sibling_name_own:
  assumes "c = tee \<or> c = elbow"
  shows "sibling_name prefix (prefix @ c @ name) = Some name"
proof -
  have "strip_prefix tee (elbow @ name) = None"
    by (simp add: tee_def elbow_def)
  then show ?thesis
    using assms by (auto simp: sibling_name_def strip_prefix_append)
qed

lemma sibling_name_deeper:
  assumes "e = blank_ext \<or> e = bar_ext"
  shows "sibling_name prefix ((prefix @ e) @ r) = None"
proof -
  have "strip_prefix tee (e @ r) = None" "strip_prefix elbow (e @ r) = None"
    using assms by (auto simp: tee_def elbow_def blank_ext_def bar_ext_def)
  then show ?thesis
    using strip_prefix_append [of prefix "e @ r"] by (simp add: sibling_name_def)
qed

lemma map_filter_append: "List.map_filter g (xs @ ys) = List.map_filter g xs @ List.map_filter g ys"
  by (simp add: List.map_filter_def)

lemma map_filter_none: "\<forall>x \<in> set xs. g x = None \<Longrightarrow> List.map_filter g xs = []"
  by (induction xs) (simp_all add: List.map_filter_simps)

lemma tree_loop_sibling_names:
  "tree_loop prefix items index n = Inr ls \<Longrightarrow> sibling_names prefix ls = map shown_name items"
proof (induction items arbitrary: index ls)
  case Nil
  then show ?case by (simp add: sibling_names_def List.map_filter_simps)
next
  case (Cons x rest)
  obtain item child where x: "x = (item, child)" by (cases x) auto
  define conn where "conn = (if index = n - 1 then elbow else tee)"
  define ext where "ext = (if index = n - 1 then blank_ext else bar_ext)"
  have conn: "conn = tee \<or> conn = elbow"
    by (simp add: conn_def)
  have ext: "ext = blank_ext \<or> ext = bar_ext"
    by (simp add: ext_def)
  from Cons.prems obtain sub later where
    s: "if isdir child then build_tree_lines child (prefix @ ext) = Inr sub else sub = []"
    and l: "tree_loop prefix rest (Suc index) n = Inr later"
    and ls: "ls = (prefix @ conn @ shown_name (item, child)) # sub @ later"
    unfolding x conn_def ext_def by (rule tree_loop_ConsE)
  have own: "sibling_name prefix (prefix @ conn @ shown_name (item, child))
      = Some (shown_name (item, child))"
    using conn by (rule sibling_name_own)
  have "\<forall>l \<in> set sub. sibling_name prefix l = None"
  proof (cases "isdir child")
    case True
    then have "build_tree_lines child (prefix @ ext) = Inr sub"
      using s by simp
    then have "\<forall>l \<in> set sub. \<exists>r. l = (prefix @ ext) @ r"
      by (rule lines_start_with_prefix(1))
    then show ?thesis
      using sibling_name_deeper [OF ext, of prefix] by fastforce
  next
    case False
    then show ?thesis using s by simp
  qed
  then have deeper: "List.map_filter (sibling_name prefix) sub = []"
    by (rule map_filter_none)
  have rest: "List.map_filter (sibling_name prefix) later = map shown_name rest"
    using Cons.IH [OF l] by (simp only: sibling_names_def)
  have "List.map_filter (sibling_name prefix) ((prefix @ conn @ shown_name (item, child)) # sub @ later)
      = shown_name (item, child) # map shown_name rest"
    by (simp only: List.map_filter_simps own map_filter_append deeper rest option.case append_Nil)
  then show ?case
    unfolding ls x sibling_names_def by simp
qed

text \<open>
  C8: in a successful rendering of a directory, the lines of its own entries, read off
  the output in order, show the entries sorted by name: files and directories in one
  sequence, a directory with \<open>/\<close> after its name. The sorted entries are the entries of
  the directory, each once.
\<close>

theorem siblings_in_name_order:
  assumes "build_tree_lines (Dir entries) prefix = Inr ls"
  shows "sibling_names prefix ls = map shown_name (sort_key fst entries)
       \<and> sorted (map fst (sort_key fst entries))
       \<and> mset (sort_key fst entries) = mset entries"
proof -
  have "tree_loop prefix (sort_key fst entries) 0 (length (sort_key fst entries)) = Inr ls"
    using assms by (simp add: Let_def)
  then have "sibling_names prefix ls = map shown_name (sort_key fst entries)"
    by (rule tree_loop_sibling_names)
  then show ?thesis by simp
qed


theorem siblings_in_name_order_witness:
  "build_tree_lines
     (Dir [(''b.txt'', File \<lparr>getsize = Inr 2, read_text = Inr ''hi''\<rparr>),
           (''a'', Dir [(''y'', File \<lparr>getsize = Inr 1, read_text = Inr ''y''\<rparr>),
                        (''x'', File \<lparr>getsize = Inr 1, read_text = Inr ''x''\<rparr>)]),
           (''B'', File \<lparr>getsize = Inr 0, read_text = Inr []\<rparr>)])
     blank_ext
   = Inr [blank_ext @ tee @ ''B'',
          blank_ext @ tee @ ''a/'',
          blank_ext @ bar_ext @ tee @ ''x'',
          blank_ext @ bar_ext @ elbow @ ''y'',
          blank_ext @ elbow @ ''b.txt'']
   \<and> sibling_names blank_ext
        [blank_ext @ tee @ ''B'',
         blank_ext @ tee @ ''a/'',
         blank_ext @ bar_ext @ tee @ ''x'',
         blank_ext @ bar_ext @ elbow @ ''y'',
         blank_ext @ elbow @ ''b.txt'']
      = [''B'', ''a/'', ''b.txt'']"
proof -
  define fb where "fb = \<lparr>getsize = Inr 2, read_text = Inr ''hi''\<rparr>"
  define fx where "fx = \<lparr>getsize = Inr 1, read_text = Inr ''x''\<rparr>"
  define fy where "fy = \<lparr>getsize = Inr 1, read_text = Inr ''y''\<rparr>"
  define fe where "fe = \<lparr>getsize = Inr 0, read_text = Inr []\<rparr>"
  define entries where "entries = [(''b.txt'', File fb),
      (''a'', Dir [(''y'', File fy), (''x'', File fx)]), (''B'', File fe)]"
  have h: "build_tree_lines (Dir entries) blank_ext
      = Inr [blank_ext @ tee @ ''B'',
          blank_ext @ tee @ ''a/'',
          blank_ext @ bar_ext @ tee @ ''x'',
          blank_ext @ bar_ext @ elbow @ ''y'',
          blank_ext @ elbow @ ''b.txt'']"
    unfolding entries_def fb_def fx_def fy_def fe_def by code_simp
  have so: "map shown_name (sort_key fst entries) = [''B'', ''a/'', ''b.txt'']"
    unfolding entries_def fb_def fx_def fy_def fe_def by code_simp
  have "sibling_names blank_ext
        [blank_ext @ tee @ ''B'',
         blank_ext @ tee @ ''a/'',
         blank_ext @ bar_ext @ tee @ ''x'',
         blank_ext @ bar_ext @ elbow @ ''y'',
         blank_ext @ elbow @ ''b.txt'']
      = [''B'', ''a/'', ''b.txt'']"
    using siblings_in_name_order [OF h, THEN conjunct1] unfolding so .
  then show ?thesis
    using h unfolding entries_def fb_def fx_def fy_def fe_def by simp
qed

end
